theory Spec2Isabelle
  imports Complex_Main "HOL-Library.Product_Lexorder"
begin

section \<open>Python values used by saami\_vocabulator.py\<close>

text \<open>
  A Python \<open>str\<close> is a sequence of Unicode code points, so it is modelled as a list of
  natural numbers (the code points); \<open>py\<close> turns an ASCII literal into such a list.
  Exceptions are values of \<open>py_error\<close>, carried in the left summand of a result.
\<close>

type_synonym pychar = nat
type_synonym pystr = "pychar list"

definition py :: "string \<Rightarrow> pystr" where
  "py s = map of_char s"

datatype py_error = IndexError | ZeroDivisionError

section \<open>difflib.SequenceMatcher, as \<open>similar\<close> calls it\<close>

text \<open>
  \<open>similar\<close> calls \<open>SequenceMatcher(None, a, b).ratio()\<close> of the Python standard library.
  The model follows CPython's difflib.py: \<open>isjunk\<close> is \<open>None\<close>, so the junk set
  \<open>bjunk\<close> is empty, and \<open>autojunk\<close> is left at its default \<open>True\<close>, so elements of a
  sequence \<open>b\<close> of 200 or more items that occur more than \<open>len(b) // 100 + 1\<close> times are
  "popular" and are removed from the index \<open>b2j\<close>.
\<close>

type_synonym match = "nat \<times> nat \<times> nat"

definition popular :: "'a list \<Rightarrow> 'a \<Rightarrow> bool" where
  "popular b elt = (length b \<ge> 200 \<and> count_list b elt > length b div 100 + 1)"

text \<open>\<open>b2j[elt]\<close>: the ascending indices of \<open>elt\<close> in \<open>b\<close>; no entry for a popular element.\<close>

definition b2j :: "'a list \<Rightarrow> 'a \<Rightarrow> nat list" where
  "b2j b elt = (if popular b elt then [] else filter (\<lambda>j. b ! j = elt) [0..<length b])"

definition isbjunk :: "'a \<Rightarrow> bool" where
  "isbjunk x = False"

text \<open>\<open>j2len.get(j-1, 0)\<close>; for \<open>j = 0\<close> the key \<open>-1\<close> is never present.\<close>

definition j2lenget :: "(nat \<rightharpoonup> nat) \<Rightarrow> nat \<Rightarrow> nat" where
  "j2lenget j2len j = (if j = 0 then 0 else case j2len (j - 1) of None \<Rightarrow> 0 | Some v \<Rightarrow> v)"

text \<open>
  The inner loop \<open>for j in b2j.get(a[i], nothing)\<close> of \<open>find_longest_match\<close>, with its
  \<open>continue\<close> and \<open>break\<close>. The state is \<open>newj2len\<close> and the best match so far; the new
  start \<open>i-k+1\<close> is written \<open>i + 1 - k\<close> (\<open>k \<le> i + 1\<close> always holds).
\<close>

fun flm_inner ::
  "(nat \<rightharpoonup> nat) \<Rightarrow> nat \<Rightarrow> nat \<Rightarrow> nat \<Rightarrow> nat list \<Rightarrow> (nat \<rightharpoonup> nat) \<times> match \<Rightarrow> (nat \<rightharpoonup> nat) \<times> match"
where
  "flm_inner j2len i blo bhi [] st = st"
| "flm_inner j2len i blo bhi (j # js) (newj2len, (besti, bestj, bestsize)) =
     (if j < blo then flm_inner j2len i blo bhi js (newj2len, (besti, bestj, bestsize))
      else if j \<ge> bhi then (newj2len, (besti, bestj, bestsize))
      else (let k = j2lenget j2len j + 1 in
        flm_inner j2len i blo bhi js
          (newj2len(j \<mapsto> k),
           if k > bestsize then (i + 1 - k, j + 1 - k, k) else (besti, bestj, bestsize))))"

text \<open>The outer loop \<open>for i in range(alo, ahi)\<close>; the state is \<open>j2len\<close> and the best match.\<close>

fun flm_rows ::
  "'a list \<Rightarrow> 'a list \<Rightarrow> nat \<Rightarrow> nat \<Rightarrow> nat list \<Rightarrow> (nat \<rightharpoonup> nat) \<times> match \<Rightarrow> (nat \<rightharpoonup> nat) \<times> match"
where
  "flm_rows a b blo bhi [] st = st"
| "flm_rows a b blo bhi (i # is) (j2len, best) =
     flm_rows a b blo bhi is (flm_inner j2len i blo bhi (b2j b (a ! i)) (Map.empty, best))"

text \<open>
  The two \<open>while\<close> loops that extend the best match downwards and upwards. The source runs
  each twice: first over elements that are not junk, then over junk elements; \<open>P\<close> is that
  test.
\<close>

function extend_lo :: "('a \<Rightarrow> bool) \<Rightarrow> 'a list \<Rightarrow> 'a list \<Rightarrow> nat \<Rightarrow> nat \<Rightarrow> match \<Rightarrow> match" where
  "extend_lo P a b alo blo (besti, bestj, bestsize) =
     (if besti > alo \<and> bestj > blo \<and> P (b ! (bestj - 1)) \<and> a ! (besti - 1) = b ! (bestj - 1)
      then extend_lo P a b alo blo (besti - 1, bestj - 1, bestsize + 1)
      else (besti, bestj, bestsize))"
  by pat_completeness auto
termination
  by (relation "measure (\<lambda>(P, a, b, alo, blo, besti, bestj, bestsize). besti)") auto

function extend_hi :: "('a \<Rightarrow> bool) \<Rightarrow> 'a list \<Rightarrow> 'a list \<Rightarrow> nat \<Rightarrow> nat \<Rightarrow> match \<Rightarrow> match" where
  "extend_hi P a b ahi bhi (besti, bestj, bestsize) =
     (if besti + bestsize < ahi \<and> bestj + bestsize < bhi \<and> P (b ! (bestj + bestsize))
         \<and> a ! (besti + bestsize) = b ! (bestj + bestsize)
      then extend_hi P a b ahi bhi (besti, bestj, bestsize + 1)
      else (besti, bestj, bestsize))"
  by pat_completeness auto
termination
  by (relation "measure (\<lambda>(P, a, b, ahi, bhi, besti, bestj, bestsize). ahi - (besti + bestsize))") auto

definition find_longest_match :: "'a list \<Rightarrow> 'a list \<Rightarrow> nat \<Rightarrow> nat \<Rightarrow> nat \<Rightarrow> nat \<Rightarrow> match" where
  "find_longest_match a b alo ahi blo bhi =
     (let best = snd (flm_rows a b blo bhi [alo..<ahi] (Map.empty, (alo, blo, 0)));
          best = extend_lo (\<lambda>x. \<not> isbjunk x) a b alo blo best;
          best = extend_hi (\<lambda>x. \<not> isbjunk x) a b ahi bhi best;
          best = extend_lo isbjunk a b alo blo best;
          best = extend_hi isbjunk a b ahi bhi best
      in best)"

subsection \<open>Where \<open>find_longest_match\<close> puts its block\<close>

text \<open>
  The block returned for the windows \<open>a[alo:ahi]\<close>, \<open>b[blo:bhi]\<close> is either the empty block
  at \<open>(alo, blo)\<close> or lies inside both windows. \<open>j2len_ok\<close> is the loop invariant: a
  run of length \<open>v\<close> ending at column \<open>j\<close> in the row before \<open>i\<close> fits in the windows.
\<close>

definition flm_ok :: "nat \<Rightarrow> nat \<Rightarrow> nat \<Rightarrow> nat \<Rightarrow> match \<Rightarrow> bool" where
  "flm_ok alo ahi blo bhi m =
     (case m of (i, j, k) \<Rightarrow>
        (i = alo \<and> j = blo \<and> k = 0) \<or> (alo \<le> i \<and> blo \<le> j \<and> i + k \<le> ahi \<and> j + k \<le> bhi))"

definition j2len_ok :: "nat \<Rightarrow> nat \<Rightarrow> nat \<Rightarrow> (nat \<rightharpoonup> nat) \<Rightarrow> bool" where
  "j2len_ok alo blo i j2len = (\<forall>j v. j2len j = Some v \<longrightarrow> v + alo \<le> i \<and> v + blo \<le> j + 1)"

lemma j2lenget_le:
  assumes "j2len_ok alo blo i j2len" "blo \<le> j" "alo \<le> i"
  shows "j2lenget j2len j + alo \<le> i \<and> j2lenget j2len j + blo \<le> j"
  using assms unfolding j2len_ok_def j2lenget_def
  by (auto split: option.splits) fastforce+

lemma flm_inner_ok:
  assumes "j2len_ok alo blo i j2len" "alo \<le> i" "i < ahi"
    and "j2len_ok alo blo (Suc i) newj2len" "flm_ok alo ahi blo bhi best"
  shows "j2len_ok alo blo (Suc i) (fst (flm_inner j2len i blo bhi js (newj2len, best)))
       \<and> flm_ok alo ahi blo bhi (snd (flm_inner j2len i blo bhi js (newj2len, best)))"
  using assms
proof (induction js arbitrary: newj2len best)
  case Nil
  then show ?case by simp
next
  case (Cons j js)
  obtain bi bj bs where best: "best = (bi, bj, bs)" by (cases best)
  show ?case
  proof (cases "j < blo")
    case True
    with Cons best show ?thesis by simp
  next
    case nlo: False
    show ?thesis
    proof (cases "j \<ge> bhi")
      case True
      with nlo Cons best show ?thesis by simp
    next
      case False
      let ?k = "j2lenget j2len j + 1"
      from nlo have blo: "blo \<le> j" by simp
      from j2lenget_le[OF Cons.prems(1) blo Cons.prems(2)]
      have k: "j2lenget j2len j + alo \<le> i" "j2lenget j2len j + blo \<le> j" by auto
      have 1: "j2len_ok alo blo (Suc i) (newj2len(j \<mapsto> ?k))"
        using Cons.prems(4) k unfolding j2len_ok_def by auto
      have 2: "flm_ok alo ahi blo bhi (if ?k > bs then (i + 1 - ?k, j + 1 - ?k, ?k) else (bi, bj, bs))"
        using Cons.prems(5) k False Cons.prems(3) best unfolding flm_ok_def by auto
      have step: "flm_inner j2len i blo bhi (j # js) (newj2len, best) =
          flm_inner j2len i blo bhi js (newj2len(j \<mapsto> ?k),
            if ?k > bs then (i + 1 - ?k, j + 1 - ?k, ?k) else (bi, bj, bs))"
        using nlo False unfolding best by (simp only: flm_inner.simps Let_def if_False)
      show ?thesis unfolding step by (rule Cons.IH[OF Cons.prems(1,2,3) 1 2])
    qed
  qed
qed

lemma flm_rows_ok:
  assumes "j2len_ok alo blo m j2len" "alo \<le> m" "flm_ok alo ahi blo bhi best"
  shows "flm_ok alo ahi blo bhi (snd (flm_rows a b blo bhi [m..<ahi] (j2len, best)))"
  using assms
proof (induction "ahi - m" arbitrary: m j2len best)
  case 0
  then show ?case by simp
next
  case (Suc n)
  then have lt: "m < ahi" by simp
  then have upt: "[m..<ahi] = m # [Suc m..<ahi]" by (simp add: upt_conv_Cons)
  have e: "j2len_ok alo blo (Suc m) Map.empty" by (simp add: j2len_ok_def)
  from flm_inner_ok[OF Suc.prems(1,2) lt e Suc.prems(3)]
  have i: "j2len_ok alo blo (Suc m) (fst (flm_inner j2len m blo bhi (b2j b (a ! m)) (Map.empty, best)))"
    "flm_ok alo ahi blo bhi (snd (flm_inner j2len m blo bhi (b2j b (a ! m)) (Map.empty, best)))"
    by auto
  have n: "n = ahi - Suc m" using Suc.hyps(2) by simp
  from Suc.hyps(1)[OF n i(1) _ i(2)] Suc.prems(2)
  show ?case unfolding upt by simp
qed

declare extend_lo.simps [simp del] extend_hi.simps [simp del]

lemma extend_lo_ok:
  "flm_ok alo ahi blo bhi m \<Longrightarrow> flm_ok alo ahi blo bhi (extend_lo P a b alo blo m)"
proof (induction P a b alo blo m rule: extend_lo.induct)
  case (1 P a b alo blo besti bestj bestsize)
  show ?case
  proof (cases "besti > alo \<and> bestj > blo \<and> P (b ! (bestj - 1)) \<and> a ! (besti - 1) = b ! (bestj - 1)")
    case True
    from True "1.prems" have "flm_ok alo ahi blo bhi (besti - 1, bestj - 1, bestsize + 1)"
      unfolding flm_ok_def by auto
    from "1.IH"[OF True this] True show ?thesis by (subst extend_lo.simps) simp
  next
    case False
    with "1.prems" show ?thesis by (subst extend_lo.simps) auto
  qed
qed

lemma extend_hi_ok:
  "flm_ok alo ahi blo bhi m \<Longrightarrow> flm_ok alo ahi blo bhi (extend_hi P a b ahi bhi m)"
proof (induction P a b ahi bhi m rule: extend_hi.induct)
  case (1 P a b ahi bhi besti bestj bestsize)
  show ?case
  proof (cases "besti + bestsize < ahi \<and> bestj + bestsize < bhi \<and> P (b ! (bestj + bestsize))
         \<and> a ! (besti + bestsize) = b ! (bestj + bestsize)")
    case True
    from True "1.prems" have "flm_ok alo ahi blo bhi (besti, bestj, bestsize + 1)"
      unfolding flm_ok_def by auto
    from "1.IH"[OF True this] True show ?thesis by (subst extend_hi.simps) simp
  next
    case False
    with "1.prems" show ?thesis by (subst extend_hi.simps) auto
  qed
qed

lemma find_longest_match_ok:
  "flm_ok alo ahi blo bhi (find_longest_match a b alo ahi blo bhi)"
proof -
  have 0: "flm_ok alo ahi blo bhi (alo, blo, 0)" by (simp add: flm_ok_def)
  have e: "j2len_ok alo blo alo Map.empty" by (simp add: j2len_ok_def)
  show ?thesis unfolding find_longest_match_def Let_def
    by (intro extend_hi_ok extend_lo_ok flm_rows_ok[OF e _ 0]) simp
qed

lemma find_longest_match_bounds:
  assumes "find_longest_match a b alo ahi blo bhi = (i, j, k)" "k \<noteq> 0"
  shows "alo \<le> i \<and> i + k \<le> ahi \<and> blo \<le> j \<and> j + k \<le> bhi"
  using find_longest_match_ok[of alo ahi blo bhi a b] assms by (auto simp: flm_ok_def)

subsection \<open>\<open>get_matching_blocks\<close> and \<open>ratio\<close>\<close>

text \<open>
  The \<open>while queue\<close> loop. \<open>queue.pop()\<close> takes the window appended last, so the queue is
  a list whose head is its top: the right-hand window, appended second, comes first.
\<close>

text \<open>The termination measure of the loop: the sum of \<open>window_weight\<close> over the queue.\<close>

definition window_weight :: "nat \<times> nat \<times> nat \<times> nat \<Rightarrow> nat" where
  "window_weight w = (case w of (alo, ahi, blo, bhi) \<Rightarrow> 2 * ((ahi - alo) + (bhi - blo)) + 1)"

function gmb_loop ::
  "'a list \<Rightarrow> 'a list \<Rightarrow> (nat \<times> nat \<times> nat \<times> nat) list \<Rightarrow> match list \<Rightarrow> match list"
where
  "gmb_loop a b [] matching_blocks = matching_blocks"
| "gmb_loop a b ((alo, ahi, blo, bhi) # queue) matching_blocks =
     (case find_longest_match a b alo ahi blo bhi of
        (i, j, k) \<Rightarrow>
          if k \<noteq> 0 then
            gmb_loop a b
              ((if i + k < ahi \<and> j + k < bhi then [(i + k, ahi, j + k, bhi)] else [])
               @ (if alo < i \<and> blo < j then [(alo, i, blo, j)] else []) @ queue)
              (matching_blocks @ [(i, j, k)])
          else gmb_loop a b queue matching_blocks)"
  by pat_completeness auto

termination gmb_loop
proof (relation "measure (\<lambda>(a, b, queue, blocks). sum_list (map window_weight queue))")
  show "wf (measure (\<lambda>(a, b, queue, blocks). sum_list (map window_weight queue)))" by simp
next
  fix a b :: "'a list" and alo ahi blo bhi queue and matching_blocks :: "match list"
    and x i y j k
  assume "(i, y) = find_longest_match a b alo ahi blo bhi" "(j, k) = y" "k \<noteq> 0"
  then have "find_longest_match a b alo ahi blo bhi = (i, j, k)" by simp
  from find_longest_match_bounds[OF this \<open>k \<noteq> 0\<close>] \<open>k \<noteq> 0\<close>
  show "((a, b,
          (if i + k < ahi \<and> j + k < bhi then [(i + k, ahi, j + k, bhi)] else [])
          @ (if alo < i \<and> blo < j then [(alo, i, blo, j)] else []) @ queue,
          matching_blocks @ [(i, j, k)]),
         (a, b, (alo, ahi, blo, bhi) # queue, matching_blocks))
        \<in> measure (\<lambda>(a, b, queue, blocks). sum_list (map window_weight queue))"
    by (auto simp: window_weight_def)
next
  fix a b :: "'a list" and alo ahi blo bhi queue and matching_blocks :: "match list"
    and x i y j k
  show "((a, b, queue, matching_blocks), (a, b, (alo, ahi, blo, bhi) # queue, matching_blocks))
        \<in> measure (\<lambda>(a, b, queue, blocks). sum_list (map window_weight queue))"
    by (simp add: window_weight_def)
qed

declare gmb_loop.simps [simp del]

text \<open>
  The loop that merges adjacent blocks after \<open>matching_blocks.sort()\<close>: the state is the
  block \<open>(i1, j1, k1)\<close> compared against and the list \<open>non_adjacent\<close>.
\<close>

fun collapse :: "match list \<Rightarrow> match \<Rightarrow> match list \<Rightarrow> match \<times> match list" where
  "collapse [] cur non_adjacent = (cur, non_adjacent)"
| "collapse ((i2, j2, k2) # rest) (i1, j1, k1) non_adjacent =
     (if i1 + k1 = i2 \<and> j1 + k1 = j2 then collapse rest (i1, j1, k1 + k2) non_adjacent
      else collapse rest (i2, j2, k2)
             (if k1 \<noteq> 0 then non_adjacent @ [(i1, j1, k1)] else non_adjacent))"

definition get_matching_blocks :: "'a list \<Rightarrow> 'a list \<Rightarrow> match list" where
  "get_matching_blocks a b =
     (let la = length a; lb = length b;
          matching_blocks = sort (gmb_loop a b [(0, la, 0, lb)] []);
          ((i1, j1, k1), non_adjacent) = collapse matching_blocks (0, 0, 0) [];
          non_adjacent = (if k1 \<noteq> 0 then non_adjacent @ [(i1, j1, k1)] else non_adjacent)
      in non_adjacent @ [(la, lb, 0)])"

text \<open>
  \<open>_calculate_ratio\<close> returns the float \<open>2.0 * matches / length\<close>. The model computes the
  quotient exactly, as a rational number.
\<close>

definition calculate_ratio :: "nat \<Rightarrow> nat \<Rightarrow> rat" where
  "calculate_ratio matches len = (if len \<noteq> 0 then 2 * of_nat matches / of_nat len else 1)"

definition ratio :: "'a list \<Rightarrow> 'a list \<Rightarrow> rat" where
  "ratio a b =
     calculate_ratio (sum_list (map (\<lambda>triple. snd (snd triple)) (get_matching_blocks a b)))
       (length a + length b)"

section \<open>The similarity matcher\<close>

text \<open>
  \<open>similar(a, b)\<close>: an argument is a \<open>str\<close> or \<open>None\<close>. The test \<open>None in (a, b)\<close> holds
  exactly when one of them is \<open>None\<close>.
\<close>

definition similar :: "'a list option \<Rightarrow> 'a list option \<Rightarrow> rat" where
  "similar a b =
     (case (a, b) of
        (Some x, Some y) \<Rightarrow> ratio x y
      | _ \<Rightarrow> 0)"

section \<open>Records\<close>

text \<open>
  \<open>class DictEntry\<close>: the class attributes \<open>word = ""\<close> and \<open>pos = ""\<close> are the values a new
  instance reads until they are assigned, and \<open>__init__\<close> sets \<open>translations = {}\<close>;
  the field \<open>translations\<close> is named \<open>transl\<close> here.
\<close>

record DictEntry =
  word :: pystr
  pos :: pystr
  transl :: "pystr \<rightharpoonup> pystr"

definition new_DictEntry :: DictEntry where
  "new_DictEntry = \<lparr>word = [], pos = [], transl = Map.empty\<rparr>"

text \<open>
  \<open>__eq__(self, obj)\<close> compares \<open>self.word == obj.word\<close> inside \<open>try\<close>; for an object with no
  attribute \<open>word\<close> the \<open>AttributeError\<close> is caught and the result is \<open>False\<close>.
\<close>

datatype py_object = Entry DictEntry | NoWord

definition DictEntry_eq :: "DictEntry \<Rightarrow> py_object \<Rightarrow> bool" where
  "DictEntry_eq self obj = (case obj of Entry e \<Rightarrow> word self = word e | NoWord \<Rightarrow> False)"

text \<open>\<open>entry in xs\<close> for a list of entries: some item compares equal to \<open>entry\<close>.\<close>

fun entry_in :: "DictEntry \<Rightarrow> DictEntry list \<Rightarrow> bool" where
  "entry_in entry [] = False"
| "entry_in entry (x # xs) = (DictEntry_eq x (Entry entry) \<or> entry_in entry xs)"

section \<open>The threshold matching loop\<close>

text \<open>
  The text written to the report file is kept as a list of lines, one constructor for each
  \<open>f.write\<close> of the loop, holding the values that are formatted into the line.
\<close>

datatype dialect = Pite | North

datatype out_line =
    Dashes
  | NewHeader dialect
  | NewMatch dialect pystr pystr pystr pystr
  | Summary dialect nat rat nat rat
  | PosLine pystr nat rat
  | Newline

text \<open>The comparison language: \<open>'swe'\<close> in the Pite Saami loop, \<open>'nor'\<close> in the North Saami one.\<close>

fun lang :: "dialect \<Rightarrow> pystr" where
  "lang Pite = py ''swe''"
| "lang North = py ''nor''"

text \<open>\<open>d.get(key, default)\<close>.\<close>

definition dict_get :: "('k \<rightharpoonup> 'v) \<Rightarrow> 'k \<Rightarrow> 'v \<Rightarrow> 'v" where
  "dict_get d key dflt = (case d key of None \<Rightarrow> dflt | Some v \<Rightarrow> v)"

text \<open>
  The part-of-speech counter is a \<open>dict\<close> that is later iterated, so it is an association
  list in insertion order: a new key gets count 1 at the end, a known key is incremented.
\<close>

fun count_pos :: "pystr \<Rightarrow> (pystr \<times> nat) list \<Rightarrow> (pystr \<times> nat) list" where
  "count_pos p [] = [(p, 1)]"
| "count_pos p ((q, n) # rest) =
     (if q = p then (q, n + 1) # rest else (q, n) # count_pos p rest)"

text \<open>
  The variables of one dialect's loop. The Pite Saami loop appends \<open>entry.word\<close> to its
  matched list and the North Saami loop the entry itself; only \<open>len\<close> of either list is
  read, and the model keeps the entries in both.
\<close>

record match_state =
  words_matched :: "DictEntry list"
  matches_so_far :: "DictEntry list"
  new_counter :: nat
  pos_counter :: "(pystr \<times> nat) list"
  outfile :: "out_line list"

text \<open>\<open>similar(entry.word, entry.translations.get(lang))\<close>.\<close>

definition score :: "dialect \<Rightarrow> DictEntry \<Rightarrow> rat" where
  "score d entry = similar (Some (word entry)) (transl entry (lang d))"

definition match_entry :: "dialect \<Rightarrow> rat \<Rightarrow> match_state \<Rightarrow> DictEntry \<Rightarrow> match_state" where
  "match_entry d similarity_threshold st entry =
     (if score d entry \<ge> similarity_threshold \<and> pos entry \<noteq> py ''Proper noun'' then
        (let st = st\<lparr>words_matched := words_matched st @ [entry]\<rparr>;
             st = (if \<not> entry_in entry (matches_so_far st) then
                     st\<lparr>matches_so_far := matches_so_far st @ [entry],
                        new_counter := new_counter st + 1,
                        outfile := outfile st @
                          [NewMatch d (word entry)
                             (dict_get (transl entry) (lang d) (py ''???''))
                             (pos entry)
                             (dict_get (transl entry) (py ''eng'') (py ''???''))]\<rparr>
                   else st)
         in st\<lparr>pos_counter := count_pos (pos entry) (pos_counter st)\<rparr>)
      else st)"

text \<open>Python's \<open>/\<close> on two \<open>len\<close> values: \<open>ZeroDivisionError\<close> when the divisor is 0.\<close>

definition truediv :: "nat \<Rightarrow> nat \<Rightarrow> py_error + rat" where
  "truediv x y = (if y = 0 then Inl ZeroDivisionError else Inr (of_nat x / of_nat y))"

text \<open>\<open>for pos in pos_counter: f.write(...)\<close>, dividing each count by the matched count.\<close>

fun write_pos :: "(pystr \<times> nat) list \<Rightarrow> nat \<Rightarrow> out_line list \<Rightarrow> py_error + out_line list" where
  "write_pos [] n out = Inr out"
| "write_pos ((p, c) # rest) n out =
     (case truediv c n of
        Inl e \<Rightarrow> Inl e
      | Inr q \<Rightarrow> write_pos rest n (out @ [PosLine p c (q * 100)]))"

text \<open>
  One dialect at one threshold: the header, the loop over the words, the summary line
  (which divides by \<open>len\<close> of the word list), the part-of-speech lines and a newline. The
  result is the cumulative list and the file.
\<close>

definition dialect_pass ::
  "dialect \<Rightarrow> rat \<Rightarrow> DictEntry list \<Rightarrow> DictEntry list \<Rightarrow> out_line list
     \<Rightarrow> py_error + (DictEntry list \<times> out_line list)"
where
  "dialect_pass d similarity_threshold words so_far out =
     (let st = foldl (match_entry d similarity_threshold)
                 \<lparr>words_matched = [], matches_so_far = so_far, new_counter = 0,
                  pos_counter = [], outfile = out @ [NewHeader d]\<rparr> words
      in case truediv (length (words_matched st)) (length words) of
           Inl e \<Rightarrow> Inl e
         | Inr q \<Rightarrow>
             (case write_pos (pos_counter st) (length (words_matched st))
                     (outfile st @ [Summary d (length (words_matched st)) (q * 100)
                                      (new_counter st) (similarity_threshold * 100)]) of
                Inl e \<Rightarrow> Inl e
              | Inr out' \<Rightarrow> Inr (matches_so_far st, out' @ [Newline])))"

text \<open>The state kept across thresholds, and the loop \<open>for similarity_threshold in threshholds\<close>.\<close>

record run_state =
  pite_matches_so_far :: "DictEntry list"
  north_matches_so_far :: "DictEntry list"
  report :: "out_line list"

definition initial_state :: run_state where
  "initial_state = \<lparr>pite_matches_so_far = [], north_matches_so_far = [], report = []\<rparr>"

fun threshold_loop ::
  "rat list \<Rightarrow> DictEntry list \<Rightarrow> DictEntry list \<Rightarrow> run_state \<Rightarrow> py_error + run_state"
where
  "threshold_loop [] psm_words nsm_words st = Inr st"
| "threshold_loop (t # ts) psm_words nsm_words st =
     (case dialect_pass Pite t psm_words (pite_matches_so_far st) (report st @ [Dashes]) of
        Inl e \<Rightarrow> Inl e
      | Inr (pite, out) \<Rightarrow>
          (case dialect_pass North t nsm_words (north_matches_so_far st) out of
             Inl e \<Rightarrow> Inl e
           | Inr (north, out) \<Rightarrow>
               threshold_loop ts psm_words nsm_words
                 \<lparr>pite_matches_so_far = pite, north_matches_so_far = north, report = out\<rparr>))"

definition threshholds :: "rat list" where
  "threshholds = [1, 95 / 100, 9 / 10, 8 / 10, 7 / 10, 6 / 10, 5 / 10]"

subsection \<open>Record equality\<close>

text \<open>
  Claim C9. Two \<open>DictEntry\<close> instances compare equal exactly when their \<open>word\<close> fields are
  equal: entries with the same word and different part of speech or translations are
  equal, and entries that differ only in the word are equal only if the words are.
\<close>

theorem DictEntry_eq_word_only:
  "DictEntry_eq a (Entry b) = (word a = word b)
   \<and> DictEntry_eq \<lparr>word = w, pos = p1, transl = t1\<rparr> (Entry \<lparr>word = w, pos = p2, transl = t2\<rparr>)
   \<and> (DictEntry_eq \<lparr>word = w1, pos = p, transl = t\<rparr> (Entry \<lparr>word = w2, pos = p, transl = t\<rparr>)
        = (w1 = w2))"
  by (simp add: DictEntry_eq_def)

subsection \<open>Absent arguments of \<open>similar\<close>\<close>

text \<open>
  Claim C4. \<open>similar\<close> returns 0 whenever one of its arguments is \<open>None\<close>; it has no
  failing branch. So the score the matching loop computes for an entry whose translations
  lack the comparison language is 0.
\<close>

theorem similar_None:
  "similar None b = 0 \<and> similar a None = 0
   \<and> score d (entry\<lparr>transl := (transl entry)(lang d := None)\<rparr>) = 0"
  by (cases a) (simp_all add: similar_def score_def)

subsection \<open>Proper nouns\<close>

lemma match_entry_proper_noun:
  "pos entry = py ''Proper noun'' \<Longrightarrow> match_entry d t st entry = st"
  by (simp add: match_entry_def)

lemma foldl_match_entry_filter:
  "foldl (match_entry d t) st (filter (\<lambda>e. pos e \<noteq> py ''Proper noun'') words)
   = foldl (match_entry d t) st words"
  by (induction words arbitrary: st) (simp_all add: match_entry_proper_noun)

text \<open>
  Claim C6. At every threshold \<open>t\<close> (0 included) the loop body leaves all of its state
  unchanged for an entry whose part of speech is \<open>Proper noun\<close>: the matched list, the
  part-of-speech counter, the cumulative list, the new counter and the report. Hence the
  loop over a word list ends in the same state as the loop over the list without its
  proper nouns.
\<close>

theorem proper_noun_never_matched:
  "match_entry d t st (entry\<lparr>pos := py ''Proper noun''\<rparr>) = st
   \<and> foldl (match_entry d t) st words
     = foldl (match_entry d t) st (filter (\<lambda>e. pos e \<noteq> py ''Proper noun'') words)"
  by (simp add: match_entry_proper_noun foldl_match_entry_filter)

subsection \<open>Division by the number of words\<close>

lemma dialect_pass_empty: "dialect_pass d t [] so_far out = Inl ZeroDivisionError"
  by (simp add: dialect_pass_def truediv_def)

lemma write_pos_error: "write_pos pc n out = Inl e \<Longrightarrow> e = ZeroDivisionError"
  by (induction pc n out rule: write_pos.induct) (auto simp: truediv_def split: if_splits)

lemma dialect_pass_error: "dialect_pass d t words so_far out = Inl e \<Longrightarrow> e = ZeroDivisionError"
  by (auto simp: dialect_pass_def Let_def truediv_def split: if_splits sum.splits
      dest: write_pos_error)

text \<open>
  Claim C3. The summary line divides the matched count by \<open>len\<close> of the dialect's word
  list with no test for 0. When either word list is empty, the first threshold of the
  loop ends in \<open>ZeroDivisionError\<close>, whatever the other list and the state are.
\<close>

theorem empty_word_list_divides_by_zero:
  "threshold_loop (t # ts) [] nsm_words st = Inl ZeroDivisionError
   \<and> threshold_loop (t # ts) psm_words [] st = Inl ZeroDivisionError"
proof
  show "threshold_loop (t # ts) [] nsm_words st = Inl ZeroDivisionError"
    by (simp add: dialect_pass_empty)
  show "threshold_loop (t # ts) psm_words [] st = Inl ZeroDivisionError"
  proof (cases "dialect_pass Pite t psm_words (pite_matches_so_far st) (report st @ [Dashes])")
    case (Inl e)
    then show ?thesis using dialect_pass_error[OF Inl] by simp
  next
    case (Inr r)
    then show ?thesis by (cases r) (simp add: dialect_pass_empty)
  qed
qed

subsection \<open>The cumulative lists and the new matches\<close>

text \<open>
  What the report holds for one dialect: the words of its new-match lines, and the new
  counters of its summary lines.
\<close>

fun new_words :: "dialect \<Rightarrow> out_line list \<Rightarrow> pystr list" where
  "new_words d [] = []"
| "new_words d (NewMatch d' w tr p eng # rest) =
     (if d' = d then w # new_words d rest else new_words d rest)"
| "new_words d (other # rest) = new_words d rest"

fun new_counts :: "dialect \<Rightarrow> out_line list \<Rightarrow> nat list" where
  "new_counts d [] = []"
| "new_counts d (Summary d' n pct new thr # rest) =
     (if d' = d then new # new_counts d rest else new_counts d rest)"
| "new_counts d (other # rest) = new_counts d rest"

lemma new_words_append: "new_words d (xs @ ys) = new_words d xs @ new_words d ys"
  by (induction d xs rule: new_words.induct) simp_all

lemma new_counts_append: "new_counts d (xs @ ys) = new_counts d xs @ new_counts d ys"
  by (induction d xs rule: new_counts.induct) simp_all

lemma entry_in_iff: "entry_in entry xs = (word entry \<in> word ` set xs)"
  by (induction xs) (auto simp: DictEntry_eq_def)

text \<open>
  \<open>grows d st st'\<close>: from \<open>st\<close> to \<open>st'\<close> the cumulative list was extended by entries with
  new, pairwise different words, each written once to the report and counted once.
\<close>

definition grows :: "dialect \<Rightarrow> match_state \<Rightarrow> match_state \<Rightarrow> bool" where
  "grows d st st' =
     (\<exists>ext. matches_so_far st' = matches_so_far st @ ext
        \<and> distinct (map word ext)
        \<and> word ` set ext \<inter> word ` set (matches_so_far st) = {}
        \<and> new_words d (outfile st') = new_words d (outfile st) @ map word ext
        \<and> new_counter st' = new_counter st + length ext
        \<and> (\<forall>d'. d' \<noteq> d \<longrightarrow> new_words d' (outfile st') = new_words d' (outfile st))
        \<and> (\<forall>d'. new_counts d' (outfile st') = new_counts d' (outfile st)))"

lemma grows_refl: "grows d st st"
  unfolding grows_def by (rule exI[of _ "[]"]) simp

lemma grows_trans:
  assumes "grows d st1 st2" "grows d st2 st3"
  shows "grows d st1 st3"
proof -
  from assms(1) obtain e1 where 1:
    "matches_so_far st2 = matches_so_far st1 @ e1" "distinct (map word e1)"
    "word ` set e1 \<inter> word ` set (matches_so_far st1) = {}"
    "new_words d (outfile st2) = new_words d (outfile st1) @ map word e1"
    "new_counter st2 = new_counter st1 + length e1"
    "\<forall>d'. d' \<noteq> d \<longrightarrow> new_words d' (outfile st2) = new_words d' (outfile st1)"
    "\<forall>d'. new_counts d' (outfile st2) = new_counts d' (outfile st1)"
    unfolding grows_def by blast
  from assms(2) obtain e2 where 2:
    "matches_so_far st3 = matches_so_far st2 @ e2" "distinct (map word e2)"
    "word ` set e2 \<inter> word ` set (matches_so_far st2) = {}"
    "new_words d (outfile st3) = new_words d (outfile st2) @ map word e2"
    "new_counter st3 = new_counter st2 + length e2"
    "\<forall>d'. d' \<noteq> d \<longrightarrow> new_words d' (outfile st3) = new_words d' (outfile st2)"
    "\<forall>d'. new_counts d' (outfile st3) = new_counts d' (outfile st2)"
    unfolding grows_def by blast
  have d: "distinct (map word (e1 @ e2))"
    using 1(1,2) 2(2,3) by auto
  have i: "word ` set (e1 @ e2) \<inter> word ` set (matches_so_far st1) = {}"
    using 1(1,3) 2(3) by auto
  show ?thesis
    unfolding grows_def
    by (rule exI[of _ "e1 @ e2"]) (use 1 2 d i in simp)
qed

lemma match_entry_grows: "grows d st (match_entry d t st entry)"
proof (cases "score d entry \<ge> t \<and> pos entry \<noteq> py ''Proper noun''")
  case False
  then have "match_entry d t st entry = st" by (auto simp: match_entry_def)
  then show ?thesis by (simp add: grows_refl)
next
  case True
  show ?thesis
  proof (cases "entry_in entry (matches_so_far st)")
    case known: True
    with True show ?thesis
      unfolding grows_def by (intro exI[of _ "[]"]) (simp add: match_entry_def)
  next
    case new: False
    then have "word entry \<notin> word ` set (matches_so_far st)" by (simp add: entry_in_iff)
    with True new show ?thesis
      unfolding grows_def
      by (intro exI[of _ "[entry]"]) (simp add: match_entry_def new_words_append new_counts_append)
  qed
qed

lemma foldl_match_entry_grows: "grows d st (foldl (match_entry d t) st words)"
proof (induction words arbitrary: st)
  case Nil
  show ?case by (simp add: grows_refl)
next
  case (Cons w ws)
  from grows_trans[OF match_entry_grows Cons.IH] show ?case by simp
qed

lemma write_pos_lines:
  "write_pos pc n out = Inr out' \<Longrightarrow>
     new_words d out' = new_words d out \<and> new_counts d out' = new_counts d out"
proof (induction pc n out rule: write_pos.induct)
  case (1 n out)
  then show ?case by simp
next
  case (2 p c rest n out)
  then show ?case
    by (cases "truediv c n") (simp_all add: new_words_append new_counts_append)
qed

text \<open>One dialect at one threshold, seen from the state kept across thresholds.\<close>

lemma dialect_pass_grows:
  assumes "dialect_pass d t words so_far out = Inr (so_far', out')"
  shows "\<exists>ext. so_far' = so_far @ ext
      \<and> distinct (map word ext)
      \<and> word ` set ext \<inter> word ` set so_far = {}
      \<and> new_words d out' = new_words d out @ map word ext
      \<and> new_counts d out' = new_counts d out @ [length ext]
      \<and> (\<forall>d'. d' \<noteq> d \<longrightarrow> new_words d' out' = new_words d' out \<and> new_counts d' out' = new_counts d' out)"
proof -
  let ?ini = "\<lparr>words_matched = [], matches_so_far = so_far, new_counter = 0,
               pos_counter = [], outfile = out @ [NewHeader d]\<rparr>"
  let ?st = "foldl (match_entry d t) ?ini words"
  have "grows d ?ini ?st" by (rule foldl_match_entry_grows)
  then obtain ext where g0:
    "matches_so_far ?st = matches_so_far ?ini @ ext" "distinct (map word ext)"
    "word ` set ext \<inter> word ` set (matches_so_far ?ini) = {}"
    "new_words d (outfile ?st) = new_words d (outfile ?ini) @ map word ext"
    "new_counter ?st = new_counter ?ini + length ext"
    "\<forall>d'. d' \<noteq> d \<longrightarrow> new_words d' (outfile ?st) = new_words d' (outfile ?ini)"
    "\<forall>d'. new_counts d' (outfile ?st) = new_counts d' (outfile ?ini)"
    unfolding grows_def by blast
  have g:
    "matches_so_far ?st = so_far @ ext"
    "word ` set ext \<inter> word ` set so_far = {}"
    "new_words d (outfile ?st) = new_words d (out @ [NewHeader d]) @ map word ext"
    "new_counter ?st = length ext"
    "\<forall>d'. d' \<noteq> d \<longrightarrow> new_words d' (outfile ?st) = new_words d' (out @ [NewHeader d])"
    "\<forall>d'. new_counts d' (outfile ?st) = new_counts d' (out @ [NewHeader d])"
    using g0 by simp_all
  from assms obtain q out1 where
    q: "truediv (length (words_matched ?st)) (length words) = Inr q"
    and w: "write_pos (pos_counter ?st) (length (words_matched ?st))
             (outfile ?st @ [Summary d (length (words_matched ?st)) (q * 100)
                               (new_counter ?st) (t * 100)]) = Inr out1"
    and r: "so_far' = matches_so_far ?st" "out' = out1 @ [Newline]"
    by (auto simp: dialect_pass_def Let_def split: sum.splits)
  have nw: "\<And>d'. new_words d' out' = new_words d' (outfile ?st)"
    using write_pos_lines[OF w] r(2) by (simp add: new_words_append)
  have nc: "\<And>d'. new_counts d' out' =
      new_counts d' (outfile ?st) @ (if d' = d then [new_counter ?st] else [])"
    using write_pos_lines[OF w] r(2) by (simp add: new_counts_append)
  show ?thesis
    by (rule exI[of _ ext]) (use g g0(2) r(1) nw nc in \<open>simp add: new_words_append new_counts_append\<close>)
qed

text \<open>
  The invariant of the loop over the thresholds: for each dialect, the words of the
  new-match lines written so far are the words of the cumulative list, they are pairwise
  different, and the new counters written so far add up to their number.
\<close>

definition report_ok :: "run_state \<Rightarrow> bool" where
  "report_ok st =
     (new_words Pite (report st) = map word (pite_matches_so_far st)
      \<and> new_words North (report st) = map word (north_matches_so_far st)
      \<and> distinct (map word (pite_matches_so_far st))
      \<and> distinct (map word (north_matches_so_far st))
      \<and> sum_list (new_counts Pite (report st)) = length (pite_matches_so_far st)
      \<and> sum_list (new_counts North (report st)) = length (north_matches_so_far st))"

lemma threshold_loop_invariant:
  assumes "threshold_loop ts psm nsm st = Inr st'" "report_ok st"
  shows "report_ok st'
     \<and> (\<exists>ext. pite_matches_so_far st' = pite_matches_so_far st @ ext)
     \<and> (\<exists>ext. north_matches_so_far st' = north_matches_so_far st @ ext)"
  using assms
proof (induction ts arbitrary: st)
  case Nil
  then show ?case by simp
next
  case (Cons t ts)
  from Cons.prems(1) obtain p o1 n o2 where
    p: "dialect_pass Pite t psm (pite_matches_so_far st) (report st @ [Dashes]) = Inr (p, o1)"
    and n: "dialect_pass North t nsm (north_matches_so_far st) o1 = Inr (n, o2)"
    and rest: "threshold_loop ts psm nsm
       \<lparr>pite_matches_so_far = p, north_matches_so_far = n, report = o2\<rparr> = Inr st'"
    by (auto split: sum.splits)
  from dialect_pass_grows[OF p] obtain e1 where 1:
    "p = pite_matches_so_far st @ e1" "distinct (map word e1)"
    "word ` set e1 \<inter> word ` set (pite_matches_so_far st) = {}"
    "new_words Pite o1 = new_words Pite (report st @ [Dashes]) @ map word e1"
    "new_counts Pite o1 = new_counts Pite (report st @ [Dashes]) @ [length e1]"
    "new_words North o1 = new_words North (report st @ [Dashes])"
    "new_counts North o1 = new_counts North (report st @ [Dashes])"
    by auto
  from dialect_pass_grows[OF n] obtain e2 where 2:
    "n = north_matches_so_far st @ e2" "distinct (map word e2)"
    "word ` set e2 \<inter> word ` set (north_matches_so_far st) = {}"
    "new_words North o2 = new_words North o1 @ map word e2"
    "new_counts North o2 = new_counts North o1 @ [length e2]"
    "new_words Pite o2 = new_words Pite o1"
    "new_counts Pite o2 = new_counts Pite o1"
    by auto
  let ?st1 = "\<lparr>pite_matches_so_far = p, north_matches_so_far = n, report = o2\<rparr>"
  have ok: "report_ok ?st1"
    using Cons.prems(2) 1 2 unfolding report_ok_def
    by (auto simp: new_words_append new_counts_append)
  from Cons.IH[OF rest ok] 1(1) 2(1) show ?case by auto
qed

lemma threshold_loop_append:
  "threshold_loop (ts1 @ ts2) psm nsm st =
     (case threshold_loop ts1 psm nsm st of
        Inl e \<Rightarrow> Inl e
      | Inr st1 \<Rightarrow> threshold_loop ts2 psm nsm st1)"
  by (induction ts1 arbitrary: st) (auto split: sum.splits)

lemma report_ok_initial: "report_ok initial_state"
  by (simp add: report_ok_def initial_state_def)

text \<open>A run over non-empty word lists does not fail.\<close>

lemma write_pos_succeeds: "n \<noteq> 0 \<Longrightarrow> \<exists>out'. write_pos pc n out = Inr out'"
  by (induction pc n out rule: write_pos.induct) (simp_all add: truediv_def)

lemma count_pos_not_Nil: "count_pos p pc \<noteq> []"
  by (cases pc) (auto split: if_splits)

lemma match_entry_counter:
  "(pos_counter st \<noteq> [] \<longrightarrow> words_matched st \<noteq> [])
   \<Longrightarrow> pos_counter (match_entry d t st e) \<noteq> [] \<longrightarrow> words_matched (match_entry d t st e) \<noteq> []"
  by (simp add: match_entry_def Let_def)

lemma foldl_match_entry_counter:
  "(pos_counter st \<noteq> [] \<longrightarrow> words_matched st \<noteq> [])
   \<Longrightarrow> pos_counter (foldl (match_entry d t) st words) \<noteq> []
       \<longrightarrow> words_matched (foldl (match_entry d t) st words) \<noteq> []"
proof (induction words arbitrary: st)
  case Nil
  then show ?case by simp
next
  case (Cons w ws)
  from Cons.IH[OF match_entry_counter[OF Cons.prems]] show ?case by simp
qed

lemma dialect_pass_succeeds:
  assumes "words \<noteq> []"
  shows "\<exists>r. dialect_pass d t words so_far out = Inr r"
proof -
  let ?st = "foldl (match_entry d t)
      \<lparr>words_matched = [], matches_so_far = so_far, new_counter = 0,
       pos_counter = [], outfile = out @ [NewHeader d]\<rparr> words"
  let ?s = "Summary d (length (words_matched ?st))
      (of_nat (length (words_matched ?st)) / of_nat (length words) * 100)
      (new_counter ?st) (t * 100)"
  have c: "pos_counter ?st \<noteq> [] \<longrightarrow> words_matched ?st \<noteq> []"
    by (rule foldl_match_entry_counter) simp
  have "\<exists>out'. write_pos (pos_counter ?st) (length (words_matched ?st)) (outfile ?st @ [?s])
          = Inr out'"
  proof (cases "pos_counter ?st")
    case Nil
    then show ?thesis by simp
  next
    case (Cons x xs)
    with c have "length (words_matched ?st) \<noteq> 0" by simp
    then show ?thesis by (rule write_pos_succeeds)
  qed
  then obtain out' where
    "write_pos (pos_counter ?st) (length (words_matched ?st)) (outfile ?st @ [?s]) = Inr out'" ..
  with assms show ?thesis
    by (simp add: dialect_pass_def Let_def truediv_def)
qed

lemma threshold_loop_succeeds:
  assumes "psm \<noteq> []" "nsm \<noteq> []"
  shows "\<exists>st'. threshold_loop ts psm nsm st = Inr st'"
proof (induction ts arbitrary: st)
  case Nil
  show ?case by simp
next
  case (Cons t ts)
  from dialect_pass_succeeds[OF assms(1)] obtain p o1 where
    p: "dialect_pass Pite t psm (pite_matches_so_far st) (report st @ [Dashes]) = Inr (p, o1)"
    by (metis surj_pair)
  from dialect_pass_succeeds[OF assms(2)] obtain n o2 where
    n: "dialect_pass North t nsm (north_matches_so_far st) o1 = Inr (n, o2)"
    by (metis surj_pair)
  from Cons[of "\<lparr>pite_matches_so_far = p, north_matches_so_far = n, report = o2\<rparr>"] p n
  show ?case by simp
qed

text \<open>
  Claim C2. In a run of the loop over any threshold list, from the empty cumulative
  lists: the cumulative list of each dialect after a first part of the thresholds is an
  initial segment of the list at the end, so its size never decreases; the words of the
  new-match lines of one dialect in the whole report are pairwise different, so a record,
  compared by its word, is reported as new at most once; and the new counters of the
  summary lines add up to the number of these lines.
\<close>

theorem matches_so_far_monotone:
  assumes "threshold_loop (ts1 @ ts2) psm_words nsm_words initial_state = Inr st"
  shows "\<exists>st1. threshold_loop ts1 psm_words nsm_words initial_state = Inr st1
     \<and> (\<exists>ext. pite_matches_so_far st = pite_matches_so_far st1 @ ext)
     \<and> (\<exists>ext. north_matches_so_far st = north_matches_so_far st1 @ ext)
     \<and> length (pite_matches_so_far st1) \<le> length (pite_matches_so_far st)
     \<and> length (north_matches_so_far st1) \<le> length (north_matches_so_far st)
     \<and> distinct (new_words Pite (report st))
     \<and> distinct (new_words North (report st))
     \<and> sum_list (new_counts Pite (report st)) = length (new_words Pite (report st))
     \<and> sum_list (new_counts North (report st)) = length (new_words North (report st))"
proof -
  from assms obtain st1 where
    1: "threshold_loop ts1 psm_words nsm_words initial_state = Inr st1"
    and 2: "threshold_loop ts2 psm_words nsm_words st1 = Inr st"
    by (auto simp: threshold_loop_append split: sum.splits)
  from threshold_loop_invariant[OF 1 report_ok_initial] have ok1: "report_ok st1" by simp
  from threshold_loop_invariant[OF 2 ok1] have
    ok: "report_ok st"
    and p: "\<exists>ext. pite_matches_so_far st = pite_matches_so_far st1 @ ext"
    and n: "\<exists>ext. north_matches_so_far st = north_matches_so_far st1 @ ext"
    by auto
  from p have lp: "length (pite_matches_so_far st1) \<le> length (pite_matches_so_far st)" by auto
  from n have ln: "length (north_matches_so_far st1) \<le> length (north_matches_so_far st)" by auto
  from ok have
    "distinct (new_words Pite (report st))" "distinct (new_words North (report st))"
    "sum_list (new_counts Pite (report st)) = length (new_words Pite (report st))"
    "sum_list (new_counts North (report st)) = length (new_words North (report st))"
    by (simp_all add: report_ok_def)
  with 1 p n lp ln show ?thesis by blast
qed

text \<open>
  A run on one Pite Saami entry (\<open>bussa\<close>, Swedish \<open>buss\<close>, similarity 8/9) and one North
  Saami entry without a Norwegian translation, at the thresholds 1.0 and 0.7: the entry
  is not matched at 1.0 and is reported as new, once, at 0.7.
\<close>

definition example_psm :: "DictEntry list" where
  "example_psm = [\<lparr>word = py ''bussa'', pos = py ''Noun'', transl = [py ''swe'' \<mapsto> py ''buss'']\<rparr>]"

definition example_nsm :: "DictEntry list" where
  "example_nsm = [\<lparr>word = py ''girji'', pos = py ''Noun'', transl = Map.empty\<rparr>]"

lemma example_run_new_words:
  "(case threshold_loop ([1] @ [7 / 10]) example_psm example_nsm initial_state of
      Inl e \<Rightarrow> [] | Inr st \<Rightarrow> new_words Pite (report st)) = [py ''bussa'']
   \<and> (case threshold_loop [1] example_psm example_nsm initial_state of
      Inl e \<Rightarrow> [py ''error''] | Inr st \<Rightarrow> new_words Pite (report st)) = []"
  by code_simp

theorem matches_so_far_monotone_witness:
  "\<exists>st. threshold_loop ([1] @ [7 / 10]) example_psm example_nsm initial_state = Inr st
     \<and> new_words Pite (report st) = [py ''bussa'']
     \<and> (\<exists>st1. threshold_loop [1] example_psm example_nsm initial_state = Inr st1
        \<and> (\<exists>ext. pite_matches_so_far st = pite_matches_so_far st1 @ ext)
        \<and> (\<exists>ext. north_matches_so_far st = north_matches_so_far st1 @ ext)
        \<and> length (pite_matches_so_far st1) \<le> length (pite_matches_so_far st)
        \<and> length (north_matches_so_far st1) \<le> length (north_matches_so_far st)
        \<and> distinct (new_words Pite (report st))
        \<and> distinct (new_words North (report st))
        \<and> sum_list (new_counts Pite (report st)) = length (new_words Pite (report st))
        \<and> sum_list (new_counts North (report st)) = length (new_words North (report st)))"
proof -
  have "example_psm \<noteq> []" "example_nsm \<noteq> []"
    by (simp_all add: example_psm_def example_nsm_def)
  from threshold_loop_succeeds[OF this] obtain st where
    st: "threshold_loop ([1] @ [7 / 10]) example_psm example_nsm initial_state = Inr st"
    by blast
  from example_run_new_words st have "new_words Pite (report st) = [py ''bussa'']"
    by simp
  with st matches_so_far_monotone[OF st] show ?thesis by blast
qed

end
